theory Spec2Isabelle
  imports Main "HOL-Library.Multiset" "HOL-Library.Sublist"
begin

section \<open>Data model of lib.js\<close>

text \<open>
  A person record as the loader hands it over. JavaScript compares objects by reference
  (\<^verbatim>\<open>Array.prototype.includes\<close>, \<^verbatim>\<open>Set\<close>), so the record carries the identity of the
  object in the field \<open>ref\<close>: two objects are the same object exactly when the records are
  equal, provided one identity never stands for two different contents.
\<close>

record person =
  ref :: nat
  name :: string
  gender :: string
  best :: bool
  friends :: "string list"

definition MALE :: string where
  "MALE = ''male''"

definition FEMALE :: string where
  "FEMALE = ''female''"

text \<open>\<^verbatim>\<open>function LevelConstructor(friend, level)\<close>: a person with the number of its circle.\<close>

record LevelConstructor =
  friend :: person
  level :: int

section \<open>Connected components\<close>

text \<open>
  The loop of \<^verbatim>\<open>breadthSearch\<close>: \<^verbatim>\<open>queue.shift()\<close> takes the head of the queue, the
  persons of the graph whose name the node lists and that are not yet visited are pushed
  to both arrays. The filter is evaluated before the pushes.
\<close>

function breadthSearch_loop :: "person list \<Rightarrow> person list \<Rightarrow> person list \<Rightarrow> person list" where
  "breadthSearch_loop graph visited [] = visited"
| "breadthSearch_loop graph visited (node # queue) =
     (let nextNodes = filter (\<lambda>x. x \<notin> set visited)
                        (filter (\<lambda>x. name x \<in> set (friends node)) graph)
      in breadthSearch_loop graph (visited @ nextNodes) (queue @ nextNodes))"
  by pat_completeness auto
termination
proof (relation "(\<lambda>(g, v, q). card (set g - set v)) <*mlex*> measure (\<lambda>(g, v, q). length q)")
  show "wf ((\<lambda>(g, v, q). card (set g - set v)) <*mlex*> measure (\<lambda>(g, v, q). length q))"
    by (simp add: wf_mlex)
next
  fix graph visited queue nextNodes :: "person list" and node :: person
  assume nx: "nextNodes = filter (\<lambda>x. x \<notin> set visited)
                (filter (\<lambda>x. name x \<in> set (friends node)) graph)"
  show "((graph, visited @ nextNodes, queue @ nextNodes), (graph, visited, node # queue))
        \<in> (\<lambda>(g, v, q). card (set g - set v)) <*mlex*> measure (\<lambda>(g, v, q). length q)"
  proof (cases "nextNodes = []")
    case True
    then show ?thesis by (simp add: mlex_iff)
  next
    case False
    then obtain y where y: "y \<in> set nextNodes" by (cases nextNodes) auto
    with nx have "y \<in> set graph - set visited" by auto
    moreover from y have "y \<notin> set graph - set (visited @ nextNodes)" by simp
    ultimately have "set graph - set (visited @ nextNodes) \<subset> set graph - set visited"
      by auto
    then have "card (set graph - set (visited @ nextNodes)) < card (set graph - set visited)"
      by (intro psubset_card_mono) simp_all
    then show ?thesis by (simp add: mlex_iff)
  qed
qed

definition breadthSearch :: "person \<Rightarrow> person list \<Rightarrow> person list" where
  "breadthSearch startNode graph = breadthSearch_loop graph [startNode] [startNode]"

text \<open>
  The loop of \<^verbatim>\<open>findConnectedComponents\<close>: \<open>visited\<close> holds names, \<open>components\<close> the
  components found so far; the loop ends when every person of the graph has a visited name.
\<close>

function findConnectedComponents_loop ::
  "person list \<Rightarrow> string list \<Rightarrow> person list list \<Rightarrow> person list list" where
  "findConnectedComponents_loop graph visited components =
     (case find (\<lambda>vertex. name vertex \<notin> set visited) graph of
        None \<Rightarrow> components
      | Some node \<Rightarrow>
          (let search = breadthSearch node graph
           in findConnectedComponents_loop graph (visited @ map name search)
                (components @ [search])))"
  by pat_completeness auto
termination
proof (relation "measure (\<lambda>(g, v, c). length (filter (\<lambda>x. name x \<notin> set v) g))")
  show "wf (measure (\<lambda>(g, v, c). length (filter (\<lambda>x. name x \<notin> set v) g)))"
    by simp
next
  fix graph :: "person list" and visited :: "string list"
    and components :: "person list list" and node :: person and search :: "person list"
  assume f: "find (\<lambda>vertex. name vertex \<notin> set visited) graph = Some node"
    and s: "search = breadthSearch node graph"
  have start: "set v \<subseteq> set (breadthSearch_loop g v q)" for g v q
    by (induction g v q rule: breadthSearch_loop.induct) (auto simp: Let_def)
  from start [of "[node]" graph "[node]"] s have "node \<in> set search"
    by (simp add: breadthSearch_def)
  moreover from f have "node \<in> set graph" "name node \<notin> set visited"
    by (auto simp: find_Some_iff)
  ultimately have
    "length (filter (\<lambda>x. name x \<notin> set (map name search))
               (filter (\<lambda>x. name x \<notin> set visited) graph))
       < length (filter (\<lambda>x. name x \<notin> set visited) graph)"
    by (intro length_filter_less [of node]) auto
  moreover have
    "filter (\<lambda>x. name x \<notin> set (visited @ map name search)) graph
       = filter (\<lambda>x. name x \<notin> set (map name search))
           (filter (\<lambda>x. name x \<notin> set visited) graph)"
    by (auto intro: filter_cong)
  ultimately have
    "length (filter (\<lambda>x. name x \<notin> set (visited @ map name search)) graph)
       < length (filter (\<lambda>x. name x \<notin> set visited) graph)"
    by simp
  then show "((graph, visited @ map name search, components @ [search]),
         (graph, visited, components))
        \<in> measure (\<lambda>(g, v, c). length (filter (\<lambda>x. name x \<notin> set v) g))"
    by simp
qed

declare findConnectedComponents_loop.simps [simp del]

definition findConnectedComponents :: "person list \<Rightarrow> person list list" where
  "findConnectedComponents graph = findConnectedComponents_loop graph [] []"

section \<open>Levels within a component\<close>

text \<open>\<^verbatim>\<open>Set.prototype.add\<close>: a set keeps the order of insertion and one copy of each value.\<close>

definition Set_add :: "'a list \<Rightarrow> 'a \<Rightarrow> 'a list" where
  "Set_add s x = (if x \<in> set s then s else s @ [x])"

text \<open>
  \<^verbatim>\<open>setLevelToFriend\<close>. The result of \<^verbatim>\<open>friends.find\<close> is \<open>None\<close> for \<^verbatim>\<open>undefined\<close>, which
  \<^verbatim>\<open>.filter(x => x)\<close> drops. The levels are integers, as is the bound.
\<close>

function setLevelToFriend ::
  "LevelConstructor list \<Rightarrow> person list \<Rightarrow> int \<Rightarrow> int \<Rightarrow> LevelConstructor list" where
  "setLevelToFriend nodes component currentLevel maxLevel =
     (if currentLevel > maxLevel \<or> length component = length nodes then nodes
      else
        (let setOfAllFriends =
               fold (\<lambda>graphNode s.
                       fold (\<lambda>friendOfFriend s'.
                               Set_add s' (find (\<lambda>x. name x = friendOfFriend) component))
                            (friends (friend graphNode)) s)
                    nodes [];
             allFriends =
               filter (\<lambda>x. x \<notin> set (map friend nodes))
                 (map the (filter (\<lambda>x. x \<noteq> None) setOfAllFriends))
         in setLevelToFriend
              (nodes @ map (\<lambda>f. \<lparr>friend = f, level = currentLevel\<rparr>) allFriends)
              component (currentLevel + 1) maxLevel))"
  by pat_completeness auto
termination
  by (relation "measure (\<lambda>(nodes, component, c, m). nat (m + 1 - c))") auto

declare setLevelToFriend.simps [simp del]

text \<open>\<^verbatim>\<open>getFriendsLevels\<close>: the third argument is overwritten before it is read.\<close>

definition getFriendsLevels ::
  "person list \<Rightarrow> int \<Rightarrow> LevelConstructor list \<Rightarrow> LevelConstructor list" where
  "getFriendsLevels component maxLevel nodes0 =
     (let nodes = map (\<lambda>bestFriend. \<lparr>friend = bestFriend, level = 1\<rparr>) (filter best component)
      in if maxLevel \<le> 0 \<or> length nodes < 1 then []
         else setLevelToFriend nodes component 2 maxLevel)"

section \<open>Ranking\<close>

text \<open>
  The object \<^verbatim>\<open>levels\<close> of \<^verbatim>\<open>getComponentsOfFriendsWithLevel\<close>, its properties in the order
  of their creation. \<open>pushLevel\<close> is the body of the inner loop: create the bucket of the
  level if it is missing, then push.
\<close>

type_synonym levels_object = "(int \<times> LevelConstructor list) list"

fun pushLevel :: "levels_object \<Rightarrow> LevelConstructor \<Rightarrow> levels_object" where
  "pushLevel [] x = [(level x, [x])]"
| "pushLevel ((k, bucket) # rest) x =
     (if k = level x then (k, bucket @ [x]) # rest else (k, bucket) # pushLevel rest x)"

text \<open>
  \<^verbatim>\<open>Object.values\<close> enumerates integer keys in ascending numeric order, whatever the order
  of creation.
\<close>

definition Object_values :: "levels_object \<Rightarrow> LevelConstructor list list" where
  "Object_values obj = map snd (sort_key fst obj)"

text \<open>
  \<^verbatim>\<open>Array.prototype.sort\<close> with a comparator is stable; for a consistent comparator the
  stable ordering is unique, and insertion from the right computes it.
\<close>

fun insort_cmp :: "('a \<Rightarrow> 'a \<Rightarrow> int) \<Rightarrow> 'a \<Rightarrow> 'a list \<Rightarrow> 'a list" where
  "insort_cmp c x [] = [x]"
| "insort_cmp c x (y # ys) = (if c x y \<le> 0 then x # y # ys else y # insort_cmp c x ys)"

definition Array_sort :: "('a \<Rightarrow> 'a \<Rightarrow> int) \<Rightarrow> 'a list \<Rightarrow> 'a list" where
  "Array_sort c xs = foldr (insort_cmp c) xs []"

text \<open>The first \<^verbatim>\<open>reduce\<close>: the buckets of all components.\<close>

definition componentsWithLevels :: "person list list \<Rightarrow> int \<Rightarrow> levels_object" where
  "componentsWithLevels graphComponents maxLevel =
     fold (\<lambda>currentComponent levels.
             fold (\<lambda>friend levels'. pushLevel levels' friend)
                  (getFriendsLevels currentComponent maxLevel []) levels)
          graphComponents []"

text \<open>
  The sorted buckets, concatenated, before the projection \<^verbatim>\<open>.map(x => x.friend)\<close>.
  \<open>localeCompare\<close> stands for \<^verbatim>\<open>String.prototype.localeCompare\<close>, which the host provides.
\<close>

definition rankedLevels ::
  "(string \<Rightarrow> string \<Rightarrow> int) \<Rightarrow> person list \<Rightarrow> int \<Rightarrow> LevelConstructor list" where
  "rankedLevels localeCompare graph maxLevel =
     concat (map (Array_sort (\<lambda>x y. localeCompare (name (friend x)) (name (friend y))))
               (Object_values (componentsWithLevels (findConnectedComponents graph) maxLevel)))"

definition getComponentsOfFriendsWithLevel ::
  "(string \<Rightarrow> string \<Rightarrow> int) \<Rightarrow> person list \<Rightarrow> int \<Rightarrow> person list" where
  "getComponentsOfFriendsWithLevel localeCompare graph maxLevel =
     map friend (rankedLevels localeCompare graph maxLevel)"

section \<open>Filters\<close>

text \<open>
  A Filter instance is an object whose only property of interest is \<^verbatim>\<open>filterFunction\<close>,
  absent in the base \<^verbatim>\<open>Filter\<close>.
\<close>

record filter_object =
  filterFunction :: "(person \<Rightarrow> bool) option"

definition Filter :: filter_object where
  "Filter = \<lparr>filterFunction = None\<rparr>"

definition MaleFilter :: filter_object where
  "MaleFilter = \<lparr>filterFunction = Some (\<lambda>person. gender person = MALE)\<rparr>"

definition FemaleFilter :: filter_object where
  "FemaleFilter = \<lparr>filterFunction = Some (\<lambda>person. gender person = FEMALE)\<rparr>"

definition filterArray :: "filter_object \<Rightarrow> person list \<Rightarrow> person list" where
  "filterArray this arrayToFilter =
     (case filterFunction this of
        Some f \<Rightarrow> filter (\<lambda>friend. f friend) arrayToFilter
      | None \<Rightarrow> arrayToFilter)"

section \<open>Iterators\<close>

text \<open>
  The second argument of the constructors is any JavaScript value: a Filter instance, or a
  value for which \<^verbatim>\<open>instanceof Filter\<close> is false.
\<close>

datatype js_value = FilterInstance filter_object | NotAFilter

datatype error = TypeError

record iterator =
  nextIndex :: nat
  it_friends :: "person list"

definition Iterator ::
  "(string \<Rightarrow> string \<Rightarrow> int) \<Rightarrow> person list \<Rightarrow> js_value \<Rightarrow> error + iterator" where
  "Iterator localeCompare persons arg =
     (case arg of
        NotAFilter \<Rightarrow> Inl TypeError
      | FilterInstance f \<Rightarrow>
          Inr \<lparr>nextIndex = 0,
               it_friends = filterArray f
                 (getComponentsOfFriendsWithLevel localeCompare persons (int (length persons)))\<rparr>)"

definition LimitedIterator ::
  "(string \<Rightarrow> string \<Rightarrow> int) \<Rightarrow> person list \<Rightarrow> js_value \<Rightarrow> int \<Rightarrow> error + iterator" where
  "LimitedIterator localeCompare persons arg maxLevel =
     (case arg of
        NotAFilter \<Rightarrow> Inl TypeError
      | FilterInstance f \<Rightarrow>
          Inr \<lparr>nextIndex = 0,
               it_friends = filterArray f
                 (getComponentsOfFriendsWithLevel localeCompare persons maxLevel)\<rparr>)"

text \<open>
  \<^verbatim>\<open>Iterator.prototype.next\<close> and \<^verbatim>\<open>done\<close>, shared by both constructors through the
  prototype chain. Each returns its result and the object after the call; \<open>None\<close> is
  \<^verbatim>\<open>null\<close>.
\<close>

definition Iterator_next :: "iterator \<Rightarrow> person option \<times> iterator" where
  "Iterator_next this =
     (if nextIndex this < length (it_friends this)
      then (Some (it_friends this ! nextIndex this), this\<lparr>nextIndex := nextIndex this + 1\<rparr>)
      else (None, this))"

definition Iterator_done :: "iterator \<Rightarrow> bool \<times> iterator" where
  "Iterator_done this = (nextIndex this \<ge> length (it_friends this), this)"

text \<open>A sequence of calls on one iterator, with the answers in order.\<close>

datatype call = Next | Done

datatype answer = Returned "person option" | Answered bool

fun run :: "call list \<Rightarrow> iterator \<Rightarrow> answer list \<times> iterator" where
  "run [] this = ([], this)"
| "run (Next # cs) this =
     (let (r, this') = Iterator_next this; (rs, this'') = run cs this'
      in (Returned r # rs, this''))"
| "run (Done # cs) this =
     (let (r, this') = Iterator_done this; (rs, this'') = run cs this'
      in (Answered r # rs, this''))"

section \<open>Reachability, as the claims speak of it\<close>

text \<open>
  \<open>lists_rel graph\<close>: the directed adjacency the search follows, \<open>a\<close> lists the name
  of \<open>b\<close>.
  \<open>adjacent graph\<close>: the undirected adjacency induced by \<open>friends\<close>.
\<close>

definition lists_rel :: "person list \<Rightarrow> (person \<times> person) set" where
  "lists_rel graph =
     {(a, b). a \<in> set graph \<and> b \<in> set graph \<and> name b \<in> set (friends a)}"

definition adjacent :: "person list \<Rightarrow> (person \<times> person) set" where
  "adjacent graph =
     {(a, b). a \<in> set graph \<and> b \<in> set graph \<and>
              (name b \<in> set (friends a) \<or> name a \<in> set (friends b))}"

definition symmetric :: "person list \<Rightarrow> bool" where
  "symmetric graph =
     (\<forall>a \<in> set graph. \<forall>b \<in> set graph.
        name b \<in> set (friends a) \<longrightarrow> name a \<in> set (friends b))"

text \<open>
  One hop inside a component: \<open>a\<close> lists a name that resolves to \<open>b\<close> in the component.
  \<open>walk component n p\<close>: \<open>p\<close> is reached from some best friend of the component in \<open>n\<close> hops.
  \<open>hops_from_nearest_seed component p d\<close>: the shortest such walk has \<open>d\<close> hops.
\<close>

definition hop :: "person list \<Rightarrow> person \<Rightarrow> person \<Rightarrow> bool" where
  "hop component a b = (\<exists>n \<in> set (friends a). find (\<lambda>x. name x = n) component = Some b)"

inductive walk :: "person list \<Rightarrow> nat \<Rightarrow> person \<Rightarrow> bool" for component where
  seed: "p \<in> set component \<Longrightarrow> best p \<Longrightarrow> walk component 0 p"
| step: "walk component n a \<Longrightarrow> hop component a b \<Longrightarrow> walk component (Suc n) b"

definition hops_from_nearest_seed :: "person list \<Rightarrow> person \<Rightarrow> nat \<Rightarrow> bool" where
  "hops_from_nearest_seed component p d = (walk component d p \<and> (\<forall>k < d. \<not> walk component k p))"

section \<open>Example collections\<close>

text \<open>
  The three people of the example: A is a best friend and lists B, B lists A and C, C lists B.
  The identity and the gender are left open.
\<close>

definition person_A :: "nat \<Rightarrow> string \<Rightarrow> person" where
  "person_A r g = \<lparr>ref = r, name = ''A'', gender = g, best = True, friends = [''B'']\<rparr>"

definition person_B :: "nat \<Rightarrow> string \<Rightarrow> person" where
  "person_B r g = \<lparr>ref = r, name = ''B'', gender = g, best = False, friends = [''A'', ''C'']\<rparr>"

definition person_C :: "nat \<Rightarrow> string \<Rightarrow> person" where
  "person_C r g = \<lparr>ref = r, name = ''C'', gender = g, best = False, friends = [''B'']\<rparr>"

text \<open>An iterator over one person, after that person was returned.\<close>

definition exhausted :: iterator where
  "exhausted = \<lparr>nextIndex = 1, it_friends = [person_A 0 MALE]\<rparr>"

section \<open>Order of the ranking\<close>

text \<open>
  What the ranking needs of the comparator: any two names are comparable and the order is
  transitive. A consistent comparator in the sense of ECMAScript satisfies both.
\<close>

definition consistent :: "(string \<Rightarrow> string \<Rightarrow> int) \<Rightarrow> bool" where
  "consistent c = ((\<forall>a b. c a b \<le> 0 \<or> c b a \<le> 0) \<and>
                   (\<forall>a b d. c a b \<le> 0 \<longrightarrow> c b d \<le> 0 \<longrightarrow> c a d \<le> 0))"

text \<open>A comparator to run the ranking with: the order of the code units.\<close>

fun compare_code_units :: "string \<Rightarrow> string \<Rightarrow> int" where
  "compare_code_units [] [] = 0"
| "compare_code_units [] (y # ys) = - 1"
| "compare_code_units (x # xs) [] = 1"
| "compare_code_units (x # xs) (y # ys) =
     (if (of_char x :: nat) < of_char y then - 1
      else if (of_char y :: nat) < of_char x then 1
      else compare_code_units xs ys)"

text \<open>The order of the ranking: by level, and by name within a level.\<close>

definition by_level_then_name ::
  "(string \<Rightarrow> string \<Rightarrow> int) \<Rightarrow> LevelConstructor \<Rightarrow> LevelConstructor \<Rightarrow> bool" where
  "by_level_then_name c x y =
     (level x < level y \<or> (level x = level y \<and> c (name (friend x)) (name (friend y)) \<le> 0))"

text \<open>The invariant of the object \<^verbatim>\<open>levels\<close>: one bucket per key, holding that level only.\<close>

definition buckets_ok :: "levels_object \<Rightarrow> bool" where
  "buckets_ok obj =
     (distinct (map fst obj) \<and> (\<forall>(k, b) \<in> set obj. \<forall>x \<in> set b. level x = k))"

text \<open>Two circles of friends, each with its own best friend.\<close>

definition two_circles :: "person list" where
  "two_circles =
     [\<lparr>ref = 0, name = ''Yan'', gender = MALE, best = True, friends = [''Dan'']\<rparr>,
      \<lparr>ref = 1, name = ''Dan'', gender = MALE, best = False, friends = [''Yan'']\<rparr>,
      \<lparr>ref = 2, name = ''Xu'', gender = FEMALE, best = True, friends = [''Cy'', ''Bo'']\<rparr>,
      \<lparr>ref = 3, name = ''Cy'', gender = FEMALE, best = False, friends = [''Xu'']\<rparr>,
      \<lparr>ref = 4, name = ''Bo'', gender = MALE, best = False, friends = [''Xu'']\<rparr>]"

section \<open>More example collections\<close>

text \<open>A person nobody of whose friends is listed, and a person who lists the first one.\<close>

definition lonely :: person where
  "lonely = \<lparr>ref = 0, name = ''A'', gender = MALE, best = True, friends = []\<rparr>"

definition admirer :: person where
  "admirer = \<lparr>ref = 1, name = ''B'', gender = FEMALE, best = False, friends = [''A'']\<rparr>"

definition one_sided :: "person list" where
  "one_sided = [lonely, admirer]"

text \<open>The three people of the example, as one collection.\<close>

definition three_people :: "person list" where
  "three_people = [person_A 0 MALE, person_B 1 FEMALE, person_C 2 MALE]"

section \<open>Notions for the proofs about levels\<close>

text \<open>
  \<open>allFriends_of\<close>: the array \<^verbatim>\<open>allFriends\<close> that one call of \<^verbatim>\<open>setLevelToFriend\<close> computes.
  \<open>assigned\<close>: the persons of an array of leveled persons, with their levels.
  \<open>within\<close>: the persons whose nearest best friend is fewer than \<open>c - 1\<close> hops away, with
  the number of hops plus one.
\<close>

definition allFriends_of :: "LevelConstructor list \<Rightarrow> person list \<Rightarrow> person list" where
  "allFriends_of nodes component =
     filter (\<lambda>x. x \<notin> set (map friend nodes))
       (map the (filter (\<lambda>x. x \<noteq> None)
          (fold (\<lambda>graphNode s.
                   fold (\<lambda>friendOfFriend s'.
                           Set_add s' (find (\<lambda>x. name x = friendOfFriend) component))
                        (friends (friend graphNode)) s)
                nodes [])))"

definition assigned :: "LevelConstructor list \<Rightarrow> (person \<times> int) set" where
  "assigned nodes = (\<lambda>x. (friend x, level x)) ` set nodes"

definition within :: "person list \<Rightarrow> int \<Rightarrow> (person \<times> int) set" where
  "within component c =
     {(p, int d + 1) | p d. hops_from_nearest_seed component p d \<and> int d + 1 < c}"

section \<open>Undirected distance\<close>

text \<open>
  The same walks over the undirected adjacency: \<open>walk_undirected component n p\<close> reaches \<open>p\<close>
  from some best friend of the component in \<open>n\<close> steps, each between two persons of the
  component one of whom lists the other; \<open>undirected_distance component p d\<close>: the shortest
  such walk has \<open>d\<close> steps.
\<close>

inductive walk_undirected :: "person list \<Rightarrow> nat \<Rightarrow> person \<Rightarrow> bool" for component where
  seed: "p \<in> set component \<Longrightarrow> best p \<Longrightarrow> walk_undirected component 0 p"
| step: "walk_undirected component n a \<Longrightarrow> (a, b) \<in> adjacent component \<Longrightarrow>
         walk_undirected component (Suc n) b"

definition undirected_distance :: "person list \<Rightarrow> person \<Rightarrow> nat \<Rightarrow> bool" where
  "undirected_distance component p d =
     (walk_undirected component d p \<and> (\<forall>k < d. \<not> walk_undirected component k p))"

text \<open>The second component that the finder returns for \<open>one_sided\<close>.\<close>

definition second_component :: "person list" where
  "second_component = [admirer, lonely]"

section \<open>The component finder\<close>

lemma breadthSearch_loop_reach:
  assumes "set q \<subseteq> set v" "set v \<subseteq> set g" "s \<in> set v"
    and "set v \<subseteq> (lists_rel g)\<^sup>* `` {s}"
    and "\<forall>a \<in> set v - set q. lists_rel g `` {a} \<subseteq> set v"
  shows "set (breadthSearch_loop g v q) = (lists_rel g)\<^sup>* `` {s}"
  using assms
proof (induction g v q rule: breadthSearch_loop.induct)
  case (1 graph visited)
  have "b \<in> set visited" if "(s, b) \<in> (lists_rel graph)\<^sup>*" for b
    using that
  proof (induction rule: rtrancl_induct)
    case base
    then show ?case using 1 by simp
  next
    case (step y z)
    with 1 show ?case by auto
  qed
  with 1 show ?case by auto
next
  case (2 graph visited node queue)
  define nextNodes where "nextNodes = filter (\<lambda>x. x \<notin> set visited)
                        (filter (\<lambda>x. name x \<in> set (friends node)) graph)"
  have node: "node \<in> set visited" "node \<in> set graph"
    using "2.prems" by auto
  have nx: "set nextNodes = lists_rel graph `` {node} - set visited"
    using node by (auto simp: nextNodes_def lists_rel_def)
  have a: "set (queue @ nextNodes) \<subseteq> set (visited @ nextNodes)"
    using "2.prems"(1) by auto
  have b: "set (visited @ nextNodes) \<subseteq> set graph"
    using "2.prems"(2) by (auto simp: nextNodes_def)
  have c: "s \<in> set (visited @ nextNodes)"
    using "2.prems"(3) by simp
  have "(s, node) \<in> (lists_rel graph)\<^sup>*"
    using node(1) "2.prems"(4) by auto
  then have "x \<in> (lists_rel graph)\<^sup>* `` {s}" if "x \<in> set nextNodes" for x
    using that nx by (auto intro: rtrancl_into_rtrancl)
  with "2.prems"(4) have d: "set (visited @ nextNodes) \<subseteq> (lists_rel graph)\<^sup>* `` {s}"
    by auto
  have e: "\<forall>a \<in> set (visited @ nextNodes) - set (queue @ nextNodes).
              lists_rel graph `` {a} \<subseteq> set (visited @ nextNodes)"
  proof
    fix a assume "a \<in> set (visited @ nextNodes) - set (queue @ nextNodes)"
    then have av: "a \<in> set visited" "a \<notin> set queue" by auto
    show "lists_rel graph `` {a} \<subseteq> set (visited @ nextNodes)"
    proof (cases "a = node")
      case True
      with nx show ?thesis by auto
    next
      case False
      with av have "a \<in> set visited - set (node # queue)" by simp
      with "2.prems"(5) have "lists_rel graph `` {a} \<subseteq> set visited" by blast
      then show ?thesis by auto
    qed
  qed
  from "2.IH" [OF nextNodes_def a b c d e] show ?case
    by (simp add: nextNodes_def Let_def)
qed

lemma set_breadthSearch:
  "s \<in> set g \<Longrightarrow> set (breadthSearch s g) = (lists_rel g)\<^sup>* `` {s}"
  unfolding breadthSearch_def
  by (rule breadthSearch_loop_reach) auto

lemma breadthSearch_loop_distinct:
  "distinct g \<Longrightarrow> distinct v \<Longrightarrow> distinct (breadthSearch_loop g v q)"
  by (induction g v q rule: breadthSearch_loop.induct) (auto simp: Let_def)

lemma distinct_breadthSearch: "distinct g \<Longrightarrow> distinct (breadthSearch s g)"
  unfolding breadthSearch_def by (rule breadthSearch_loop_distinct) simp_all

lemma breadthSearch_loop_prefix: "\<exists>ys. breadthSearch_loop g v q = v @ ys"
  by (induction g v q rule: breadthSearch_loop.induct) (auto simp: Let_def)

lemma hd_breadthSearch: "hd (breadthSearch s g) = s"
  using breadthSearch_loop_prefix [of g "[s]" "[s]"] by (auto simp: breadthSearch_def)

lemma breadthSearch_nonempty: "breadthSearch s g \<noteq> []"
  using breadthSearch_loop_prefix [of g "[s]" "[s]"] by (auto simp: breadthSearch_def)

lemma findConnectedComponents_loop_searches:
  "c \<in> set (findConnectedComponents_loop g vis cs) \<Longrightarrow>
   c \<in> set cs \<or> (\<exists>r \<in> set g. c = breadthSearch r g)"
proof (induction g vis cs rule: findConnectedComponents_loop.induct)
  case (1 graph visited components)
  show ?case
  proof (cases "find (\<lambda>vertex. name vertex \<notin> set visited) graph")
    case None
    with "1.prems" show ?thesis
      by (subst (asm) findConnectedComponents_loop.simps) (simp add: Let_def)
  next
    case (Some node)
    then have "node \<in> set graph" by (auto simp: find_Some_iff)
    moreover from "1.prems" Some
    have "c \<in> set (findConnectedComponents_loop graph
             (visited @ map name (breadthSearch node graph))
             (components @ [breadthSearch node graph]))"
      by (subst (asm) findConnectedComponents_loop.simps) (simp add: Let_def)
    from "1.IH" [OF Some refl this]
    have "c \<in> set components \<or> c = breadthSearch node graph \<or> (\<exists>r \<in> set graph. c = breadthSearch r graph)"
      by auto
    ultimately show ?thesis by blast
  qed
qed

lemma sym_lists_rel: "symmetric g \<Longrightarrow> sym (lists_rel g)"
  unfolding symmetric_def lists_rel_def sym_def by blast

lemma adjacent_eq_lists_rel: "symmetric g \<Longrightarrow> adjacent g = lists_rel g"
  unfolding symmetric_def lists_rel_def adjacent_def by blast

lemma lists_rel_reach_in_graph:
  "r \<in> set g \<Longrightarrow> (lists_rel g)\<^sup>* `` {r} \<subseteq> set g"
proof
  fix x assume "r \<in> set g" "x \<in> (lists_rel g)\<^sup>* `` {r}"
  then have "(r, x) \<in> (lists_rel g)\<^sup>*" by simp
  then show "x \<in> set g"
    by (induction rule: rtrancl_induct) (use \<open>r \<in> set g\<close> in \<open>auto simp: lists_rel_def\<close>)
qed

lemma findConnectedComponents_loop_partition:
  assumes "symmetric g" "distinct (map name g)"
    and "set vis = name ` set (concat cs)" "distinct (concat cs)" "set (concat cs) \<subseteq> set g"
    and "\<forall>c \<in> set cs. \<exists>r \<in> set g. set c = (lists_rel g)\<^sup>* `` {r}"
  shows "distinct (concat (findConnectedComponents_loop g vis cs)) \<and>
         set (concat (findConnectedComponents_loop g vis cs)) = set g"
  using assms
proof (induction g vis cs rule: findConnectedComponents_loop.induct)
  case (1 graph visited components)
  let ?E = "lists_rel graph"
  have inj: "inj_on name (set graph)"
    using "1.prems"(2) by (simp add: distinct_map)
  show ?case
  proof (cases "find (\<lambda>vertex. name vertex \<notin> set visited) graph")
    case None
    then have all: "\<forall>p \<in> set graph. name p \<in> set visited"
      by (auto simp: find_None_iff)
    have "set graph \<subseteq> set (concat components)"
    proof
      fix p assume p: "p \<in> set graph"
      with all "1.prems"(3) obtain q where q: "q \<in> set (concat components)" "name q = name p"
        by (metis imageE)
      with "1.prems"(5) have "q \<in> set graph" by blast
      with inj p q(2) have "q = p" by (auto dest: inj_onD)
      with q(1) show "p \<in> set (concat components)" by simp
    qed
    with "1.prems"(4,5) None show ?thesis
      by (subst (1 2) findConnectedComponents_loop.simps) auto
  next
    case (Some node)
    define search where "search = breadthSearch node graph"
    from Some have node: "node \<in> set graph" "name node \<notin> set visited"
      by (auto simp: find_Some_iff)
    have dg: "distinct graph"
      using "1.prems"(2) by (simp add: distinct_map)
    have ss: "set search = ?E\<^sup>* `` {node}"
      unfolding search_def using node(1) by (rule set_breadthSearch)
    have ds: "distinct search"
      unfolding search_def using dg by (rule distinct_breadthSearch)
    have sg: "set search \<subseteq> set graph"
      using ss lists_rel_reach_in_graph [OF node(1)] by simp
    have symE: "sym (?E\<^sup>*)"
      using "1.prems"(1) by (intro sym_rtrancl sym_lists_rel)
    have disj: "set (concat components) \<inter> set search = {}"
    proof (rule ccontr)
      assume "set (concat components) \<inter> set search \<noteq> {}"
      then obtain x c where x: "x \<in> set search" "c \<in> set components" "x \<in> set c"
        by auto
      with "1.prems"(6) obtain r where r: "set c = ?E\<^sup>* `` {r}" by blast
      from x(1) ss have "(node, x) \<in> ?E\<^sup>*" by simp
      with symE have "(x, node) \<in> ?E\<^sup>*" by (auto dest: symD)
      moreover from x(3) r have "(r, x) \<in> ?E\<^sup>*" by simp
      ultimately have "(r, node) \<in> ?E\<^sup>*" by (rule rtrancl_trans [rotated])
      with r have "node \<in> set c" by simp
      with x(2) have "node \<in> set (concat components)" by auto
      with "1.prems"(3) node(2) show False by auto
    qed
    have a: "set (visited @ map name search) = name ` set (concat (components @ [search]))"
      using "1.prems"(3) by auto
    have b: "distinct (concat (components @ [search]))"
      using "1.prems"(4) ds disj by simp
    have c: "set (concat (components @ [search])) \<subseteq> set graph"
      using "1.prems"(5) sg by simp
    have d: "\<forall>c \<in> set (components @ [search]). \<exists>r \<in> set graph. set c = ?E\<^sup>* `` {r}"
      using "1.prems"(6) ss node(1) by auto
    from "1.IH" [OF Some search_def "1.prems"(1,2) a b c d] Some
    show ?thesis
      by (subst (1 2) findConnectedComponents_loop.simps) (simp add: search_def Let_def)
  qed
qed

lemma distinct_concat_nth_disjoint:
  "distinct (concat xss) \<Longrightarrow> i < length xss \<Longrightarrow> j < length xss \<Longrightarrow> i \<noteq> j \<Longrightarrow>
   set (xss ! i) \<inter> set (xss ! j) = {}"
proof (induction xss arbitrary: i j)
  case Nil
  then show ?case by simp
next
  case (Cons xs xss)
  show ?case
  proof (cases i)
    case 0
    with Cons.prems obtain j' where j: "j = Suc j'" "j' < length xss"
      by (cases j) auto
    then have "xss ! j' \<in> set xss" by simp
    then have "set (xss ! j') \<subseteq> set (concat xss)" by (simp add: Union_upper)
    with Cons.prems(1) 0 j show ?thesis by auto
  next
    case (Suc i')
    show ?thesis
    proof (cases j)
      case 0
      from Suc Cons.prems have "xss ! i' \<in> set xss" by simp
      then have "set (xss ! i') \<subseteq> set (concat xss)" by (simp add: Union_upper)
      with Cons.prems(1) 0 Suc show ?thesis by auto
    next
      case j: (Suc j')
      with Suc Cons.prems Cons.IH [of i' j'] show ?thesis by simp
    qed
  qed
qed

text \<open>
  C1, as amended: for every collection with unique names in which friendship is mutual
  (whenever a person lists the name of another person of the collection, that person lists
  the first one's name), the components partition the collection: their concatenation is a
  permutation of the collection, every person is in exactly one component, and two
  components have no person in common.
\<close>

theorem components_partition:
  assumes "distinct (map name graph)" "symmetric graph"
  shows "mset (concat (findConnectedComponents graph)) = mset graph \<and>
    (\<forall>p \<in> set graph. \<exists>!i. i < length (findConnectedComponents graph) \<and>
                             p \<in> set (findConnectedComponents graph ! i)) \<and>
    (\<forall>i < length (findConnectedComponents graph). \<forall>j < length (findConnectedComponents graph).
        i \<noteq> j \<longrightarrow>
        set (findConnectedComponents graph ! i) \<inter> set (findConnectedComponents graph ! j) = {})"
proof -
  let ?cs = "findConnectedComponents graph"
  have "distinct (concat ?cs) \<and> set (concat ?cs) = set graph"
    unfolding findConnectedComponents_def
    using assms(2,1) by (rule findConnectedComponents_loop_partition) simp_all
  then have D: "distinct (concat ?cs)" and S: "set (concat ?cs) = set graph"
    by blast+
  from assms(1) have "distinct graph" by (simp add: distinct_map)
  with D S have 1: "mset (concat ?cs) = mset graph"
    using set_eq_iff_mset_eq_distinct [of "concat ?cs" graph] by blast
  have 3: "set (?cs ! i) \<inter> set (?cs ! j) = {}"
    if "i < length ?cs" "j < length ?cs" "i \<noteq> j" for i j
    using D that by (rule distinct_concat_nth_disjoint)
  have 2: "\<exists>!i. i < length ?cs \<and> p \<in> set (?cs ! i)" if "p \<in> set graph" for p
  proof -
    from that S obtain c where "c \<in> set ?cs" "p \<in> set c" by auto
    then obtain i where i: "i < length ?cs" "p \<in> set (?cs ! i)"
      by (auto simp: in_set_conv_nth)
    show ?thesis
    proof (rule ex1I [of _ i])
      show "i < length ?cs \<and> p \<in> set (?cs ! i)" using i by simp
    next
      fix j assume "j < length ?cs \<and> p \<in> set (?cs ! j)"
      with i 3 [of i j] show "j = i" by auto
    qed
  qed
  from 1 2 3 show ?thesis by blast
qed

theorem components_partition_witness:
  "distinct (map name two_circles) \<and> symmetric two_circles \<and>
   mset (concat (findConnectedComponents two_circles)) = mset two_circles \<and>
   length (findConnectedComponents two_circles) = 2"
proof -
  have d: "distinct (map name two_circles)"
    by (simp add: two_circles_def)
  have s: "symmetric two_circles"
    by (simp add: symmetric_def two_circles_def)
  have l: "length (findConnectedComponents two_circles) = 2"
    by (simp add: findConnectedComponents_def findConnectedComponents_loop.simps
        breadthSearch_def two_circles_def)
  from components_partition [OF d s] d s l show ?thesis by blast
qed

text \<open>
  C1 as stated fails where friendship is not mutual: the search follows the names a person
  lists, so a person who is listed but lists nobody is a component of its own and is
  visited again from the person who lists it.
\<close>

theorem components_partition_counterexample:
  "distinct (map name one_sided) \<and>
   findConnectedComponents one_sided = [[lonely], [admirer, lonely]] \<and>
   lonely \<in> set (findConnectedComponents one_sided ! 0) \<and>
   lonely \<in> set (findConnectedComponents one_sided ! 1)"
  by (simp add: findConnectedComponents_def findConnectedComponents_loop.simps
      breadthSearch_def one_sided_def lonely_def admirer_def Let_def)

text \<open>
  C2, as amended: every component is the breadth-first visit of its first person, the set
  of persons reached from it along listed names (\<open>b\<close> is adjacent to \<open>a\<close> when \<open>a\<close> lists the
  name of \<open>b\<close>). In a collection in which friendship is mutual, the component is, for each
  of its members, the set of all persons connected to that member by the undirected
  adjacency: a maximal set of mutually reachable persons.
\<close>

theorem components_are_classes:
  assumes "c \<in> set (findConnectedComponents graph)"
  shows "(\<exists>r \<in> set graph. hd c = r \<and> set c = (lists_rel graph)\<^sup>* `` {r}) \<and>
         (symmetric graph \<longrightarrow> (\<forall>a \<in> set c. set c = (adjacent graph)\<^sup>* `` {a}))"
proof -
  from assms findConnectedComponents_loop_searches [of c graph "[]" "[]"]
  obtain r where r: "r \<in> set graph" "c = breadthSearch r graph"
    by (auto simp: findConnectedComponents_def)
  then have sc: "set c = (lists_rel graph)\<^sup>* `` {r}"
    by (simp add: set_breadthSearch)
  have "set c = (adjacent graph)\<^sup>* `` {a}" if s: "symmetric graph" and a: "a \<in> set c" for a
  proof -
    let ?E = "lists_rel graph"
    from s have symE: "sym (?E\<^sup>*)" by (intro sym_rtrancl sym_lists_rel)
    from a sc have ra: "(r, a) \<in> ?E\<^sup>*" by simp
    with symE have ar: "(a, r) \<in> ?E\<^sup>*" by (auto dest: symD)
    have "?E\<^sup>* `` {r} = ?E\<^sup>* `` {a}"
      using ra ar by (auto intro: rtrancl_trans)
    with sc s show ?thesis by (simp add: adjacent_eq_lists_rel)
  qed
  with r sc show ?thesis by (auto simp: hd_breadthSearch)
qed

theorem components_are_classes_witness:
  "symmetric three_people \<and>
   three_people \<in> set (findConnectedComponents three_people) \<and>
   hd three_people = person_A 0 MALE \<and>
   set three_people = (lists_rel three_people)\<^sup>* `` {person_A 0 MALE} \<and>
   set three_people = (adjacent three_people)\<^sup>* `` {person_C 2 MALE}"
proof -
  have s: "symmetric three_people"
    by (simp add: symmetric_def three_people_def person_A_def person_B_def person_C_def)
  have m: "three_people \<in> set (findConnectedComponents three_people)"
    by (simp add: findConnectedComponents_def findConnectedComponents_loop.simps
        breadthSearch_def three_people_def person_A_def person_B_def person_C_def)
  have h: "hd three_people = person_A 0 MALE"
    by (simp add: three_people_def)
  have c: "person_C 2 MALE \<in> set three_people"
    by (simp add: three_people_def)
  from components_are_classes [OF m] h
  have 1: "set three_people = (lists_rel three_people)\<^sup>* `` {person_A 0 MALE}"
    by auto
  from components_are_classes [OF m] s c
  have 2: "set three_people = (adjacent three_people)\<^sup>* `` {person_C 2 MALE}"
    by blast
  from s m h 1 2 show ?thesis by blast
qed

text \<open>
  C2 as stated fails on the same collection: the search from the listed person does not
  reach the person who lists it, although the two are adjacent in the undirected sense.
\<close>

theorem components_are_classes_counterexample:
  "breadthSearch lonely one_sided = [lonely] \<and>
   lonely \<in> set (findConnectedComponents one_sided ! 0) \<and>
   (lonely, admirer) \<in> adjacent one_sided \<and>
   admirer \<notin> set (findConnectedComponents one_sided ! 0)"
  by (simp add: findConnectedComponents_def findConnectedComponents_loop.simps
      breadthSearch_def one_sided_def lonely_def admirer_def adjacent_def Let_def)

section \<open>Levels are hops from the nearest best friend\<close>

lemma hop_in_component: "hop component a b \<Longrightarrow> b \<in> set component"
  by (auto simp: hop_def find_Some_iff)

lemma walk_in_component: "walk component n p \<Longrightarrow> p \<in> set component"
  by (induction rule: walk.induct) (auto dest: hop_in_component)

lemma walk_0_iff: "walk component 0 p \<longleftrightarrow> p \<in> set component \<and> best p"
  by (auto intro: walk.seed elim: walk.cases)

lemma walk_Suc_iff:
  "walk component (Suc n) b \<longleftrightarrow> (\<exists>a \<in> set component. walk component n a \<and> hop component a b)"
proof
  assume "walk component (Suc n) b"
  then obtain a where "walk component n a" "hop component a b"
    by (cases rule: walk.cases) auto
  then show "\<exists>a \<in> set component. walk component n a \<and> hop component a b"
    using walk_in_component by blast
next
  assume "\<exists>a \<in> set component. walk component n a \<and> hop component a b"
  then show "walk component (Suc n) b"
    by (auto intro: walk.step)
qed

lemma hops_unique:
  "hops_from_nearest_seed component p d \<Longrightarrow> hops_from_nearest_seed component p d' \<Longrightarrow> d = d'"
  unfolding hops_from_nearest_seed_def by (meson linorder_neqE_nat)

lemma walk_hops:
  assumes "walk component n p"
  shows "\<exists>d \<le> n. hops_from_nearest_seed component p d"
proof -
  let ?d = "LEAST k. walk component k p"
  have "walk component ?d p" using assms by (rule LeastI)
  moreover have "?d \<le> n" using assms by (rule Least_le)
  moreover have "\<not> walk component k p" if "k < ?d" for k
    using that by (rule not_less_Least)
  ultimately show ?thesis
    unfolding hops_from_nearest_seed_def by blast
qed

lemma set_fold_Set_add:
  "set (fold (\<lambda>n s'. Set_add s' (f n)) ns s) = set s \<union> f ` set ns"
  by (induction ns arbitrary: s) (auto simp: Set_add_def)

lemma distinct_fold_Set_add:
  "distinct s \<Longrightarrow> distinct (fold (\<lambda>n s'. Set_add s' (f n)) ns s)"
  by (induction ns arbitrary: s) (auto simp: Set_add_def)

lemma set_fold_fold_Set_add:
  "set (fold (\<lambda>x s. fold (\<lambda>n s'. Set_add s' (f n)) (g x) s) xs s) =
   set s \<union> (\<Union>x \<in> set xs. f ` set (g x))"
  by (induction xs arbitrary: s) (auto simp: set_fold_Set_add)

lemma distinct_fold_fold_Set_add:
  "distinct s \<Longrightarrow> distinct (fold (\<lambda>x s. fold (\<lambda>n s'. Set_add s' (f n)) (g x) s) xs s)"
  by (induction xs arbitrary: s) (auto simp: distinct_fold_Set_add)

lemma set_allFriends_of:
  "set (allFriends_of nodes component) =
   {b. \<exists>x \<in> set nodes. hop component (friend x) b} - friend ` set nodes"
proof -
  let ?S = "fold (\<lambda>graphNode s.
                   fold (\<lambda>friendOfFriend s'.
                           Set_add s' (find (\<lambda>x. name x = friendOfFriend) component))
                        (friends (friend graphNode)) s)
                nodes []"
  have S: "set ?S = (\<Union>x \<in> set nodes. (\<lambda>n. find (\<lambda>y. name y = n) component) ` set (friends (friend x)))"
    by (simp add: set_fold_fold_Set_add [where f = "\<lambda>n. find (\<lambda>y. name y = n) component"
          and g = "\<lambda>x. friends (friend x)"])
  have "set (map the (filter (\<lambda>x. x \<noteq> None) ?S)) = {b. Some b \<in> set ?S}"
    by force
  also have "\<dots> = {b. \<exists>x \<in> set nodes. hop component (friend x) b}"
    unfolding S hop_def by force
  finally show ?thesis
    unfolding allFriends_of_def by auto
qed

lemma distinct_allFriends_of: "distinct (allFriends_of nodes component)"
proof -
  let ?S = "fold (\<lambda>graphNode s.
                   fold (\<lambda>friendOfFriend s'.
                           Set_add s' (find (\<lambda>x. name x = friendOfFriend) component))
                        (friends (friend graphNode)) s)
                nodes []"
  have "distinct ?S"
    by (rule distinct_fold_fold_Set_add [where f = "\<lambda>n. find (\<lambda>y. name y = n) component"
          and g = "\<lambda>x. friends (friend x)"]) simp
  then have "distinct (filter (\<lambda>x. x \<noteq> None) ?S)" by simp
  moreover have "inj_on the (set (filter (\<lambda>x. x \<noteq> None) ?S))"
    by (auto simp: inj_on_def)
  ultimately have "distinct (map the (filter (\<lambda>x. x \<noteq> None) ?S))"
    by (simp only: distinct_map)
  then show ?thesis
    unfolding allFriends_of_def by (rule distinct_filter)
qed

lemma setLevelToFriend_unfold:
  "setLevelToFriend nodes component c m =
     (if c > m \<or> length component = length nodes then nodes
      else setLevelToFriend
             (nodes @ map (\<lambda>f. \<lparr>friend = f, level = c\<rparr>) (allFriends_of nodes component))
             component (c + 1) m)"
  by (subst setLevelToFriend.simps) (simp add: Let_def allFriends_of_def)

lemma fst_assigned: "fst ` assigned nodes = friend ` set nodes"
  by (force simp: assigned_def)

lemma assigned_append:
  "assigned (nodes @ map (\<lambda>f. \<lparr>friend = f, level = c\<rparr>) fs) =
   assigned nodes \<union> (\<lambda>f. (f, c)) ` set fs"
  by (simp add: assigned_def image_Un image_image)

lemma fst_within:
  "fst ` within component c = {p. \<exists>d. hops_from_nearest_seed component p d \<and> int d + 1 < c}"
  by (force simp: within_def)

lemma within_step:
  assumes "2 \<le> c"
  shows "within component (c + 1) =
         within component c \<union> (\<lambda>p. (p, c)) ` {p. hops_from_nearest_seed component p (nat (c - 1))}"
proof (intro equalityI subsetI)
  fix x assume "x \<in> within component (c + 1)"
  then obtain p d where x: "x = (p, int d + 1)" "hops_from_nearest_seed component p d"
    "int d + 1 < c + 1"
    by (auto simp: within_def)
  show "x \<in> within component c \<union>
          (\<lambda>p. (p, c)) ` {p. hops_from_nearest_seed component p (nat (c - 1))}"
  proof (cases "int d + 1 < c")
    case True
    with x show ?thesis by (auto simp: within_def)
  next
    case False
    with x(3) have "int d + 1 = c" by simp
    moreover from this have "d = nat (c - 1)" by simp
    ultimately show ?thesis using x(1,2) by auto
  qed
next
  fix x assume "x \<in> within component c \<union>
          (\<lambda>p. (p, c)) ` {p. hops_from_nearest_seed component p (nat (c - 1))}"
  then consider "x \<in> within component c"
    | p where "x = (p, c)" "hops_from_nearest_seed component p (nat (c - 1))"
    by auto
  then show "x \<in> within component (c + 1)"
  proof cases
    case 1
    then show ?thesis by (auto simp: within_def)
  next
    case 2
    moreover have "c = int (nat (c - 1)) + 1" using assms by simp
    moreover have "int (nat (c - 1)) + 1 < c + 1" using assms by simp
    ultimately show ?thesis
      unfolding within_def by blast
  qed
qed

lemma layer:
  assumes inv: "assigned nodes = within component c" and c: "2 \<le> c"
  shows "set (allFriends_of nodes component) = {p. hops_from_nearest_seed component p (nat (c - 1))}"
proof -
  define n where "n = nat (c - 2)"
  have n: "nat (c - 1) = Suc n" "c = int n + 2"
    using c unfolding n_def by linarith+
  have nodes: "friend ` set nodes = {p. \<exists>d. hops_from_nearest_seed component p d \<and> d \<le> n}"
    using fst_assigned [of nodes] fst_within [of component c] inv n(2) by auto
  show ?thesis
  proof (intro equalityI subsetI CollectI)
    fix b assume "b \<in> set (allFriends_of nodes component)"
    then obtain x where x: "x \<in> set nodes" "hop component (friend x) b"
      and nb: "b \<notin> friend ` set nodes"
      by (auto simp: set_allFriends_of)
    from x(1) nodes obtain d where d: "hops_from_nearest_seed component (friend x) d" "d \<le> n"
      by blast
    then have "walk component (Suc d) b"
      using x(2) by (auto simp: hops_from_nearest_seed_def intro: walk.step)
    then obtain d' where d': "d' \<le> Suc d" "hops_from_nearest_seed component b d'"
      using walk_hops by blast
    with nb nodes have "\<not> d' \<le> n" by blast
    with d' d(2) have "d' = Suc n" by simp
    with d'(2) n(1) show "hops_from_nearest_seed component b (nat (c - 1))" by simp
  next
    fix b assume "b \<in> {p. hops_from_nearest_seed component p (nat (c - 1))}"
    then have b: "hops_from_nearest_seed component b (Suc n)"
      using n(1) by simp
    then have "walk component (Suc n) b"
      by (simp add: hops_from_nearest_seed_def)
    then obtain a where a: "walk component n a" "hop component a b"
      by (auto simp: walk_Suc_iff)
    then obtain d where d: "d \<le> n" "hops_from_nearest_seed component a d"
      using walk_hops by blast
    with nodes have "a \<in> friend ` set nodes" by blast
    then obtain x where x: "x \<in> set nodes" "friend x = a" by auto
    have "b \<notin> friend ` set nodes"
    proof
      assume "b \<in> friend ` set nodes"
      with nodes obtain d' where "hops_from_nearest_seed component b d'" "d' \<le> n" by blast
      with b hops_unique [of component b d' "Suc n"] show False by simp
    qed
    with x a(2) show "b \<in> set (allFriends_of nodes component)"
      by (auto simp: set_allFriends_of)
  qed
qed

lemma mset_step:
  assumes "A \<subseteq># M" "distinct xs" "set xs \<subseteq> set_mset M" "set xs \<inter> set_mset A = {}"
  shows "A + mset xs \<subseteq># M"
proof (rule mset_subset_eqI)
  fix a
  show "count (A + mset xs) a \<le> count M a"
  proof (cases "a \<in> set xs")
    case True
    with assms(4) have "count A a = 0" by (auto simp: count_eq_zero_iff)
    moreover from True assms(2) have "count (mset xs) a = 1"
      by (simp add: distinct_count_atmost_1)
    moreover from True assms(3) have "1 \<le> count M a"
      by (metis count_greater_eq_one_iff subsetD)
    ultimately show ?thesis by simp
  next
    case False
    then have z: "count (mset xs) a = 0" by (simp add: count_eq_zero_iff)
    show ?thesis
      unfolding count_union z using mset_subset_eq_count [OF assms(1), of a] by simp
  qed
qed

lemma early_stop:
  assumes ms: "mset (map friend nodes) \<subseteq># mset component"
    and len: "length component = length nodes"
    and inv: "assigned nodes = within component c"
    and c: "c \<le> m + 1"
  shows "within component c = within component (m + 1)"
proof -
  have "mset (map friend nodes) = mset component"
  proof (rule ccontr)
    assume "mset (map friend nodes) \<noteq> mset component"
    with ms have "mset (map friend nodes) \<subset># mset component" by simp
    then have "size (mset (map friend nodes)) < size (mset component)"
      by (rule mset_subset_size)
    with len show False by simp
  qed
  then have all: "friend ` set nodes = set component"
    by (metis mset_eq_setD set_map)
  show ?thesis
  proof (intro equalityI subsetI)
    fix x assume "x \<in> within component c"
    with c show "x \<in> within component (m + 1)"
      by (auto simp: within_def)
  next
    fix x assume "x \<in> within component (m + 1)"
    then obtain p d where x: "x = (p, int d + 1)" "hops_from_nearest_seed component p d"
      by (auto simp: within_def)
    then have "p \<in> set component"
      by (auto simp: hops_from_nearest_seed_def dest: walk_in_component)
    with all have "p \<in> fst ` assigned nodes"
      by (simp add: fst_assigned)
    with inv fst_within [of component c]
    obtain d' where d': "hops_from_nearest_seed component p d'" "int d' + 1 < c"
      by auto
    from hops_unique [OF d'(1) x(2)] have "d' = d" .
    with d' x show "x \<in> within component c"
      by (auto simp: within_def)
  qed
qed

lemma setLevelToFriend_within:
  assumes "assigned nodes = within component c"
    and "mset (map friend nodes) \<subseteq># mset component"
    and "2 \<le> c" "c \<le> m + 1"
  shows "assigned (setLevelToFriend nodes component c m) = within component (m + 1) \<and>
         mset (map friend (setLevelToFriend nodes component c m)) \<subseteq># mset component"
  using assms
proof (induction nodes component c m rule: setLevelToFriend.induct)
  case (1 nodes component c m)
  show ?case
  proof (cases "c > m \<or> length component = length nodes")
    case True
    have "within component c = within component (m + 1)"
    proof (cases "c > m")
      case True
      with "1.prems"(4) have "c = m + 1" by simp
      then show ?thesis by simp
    next
      case False
      with True have "length component = length nodes" by simp
      with "1.prems" show ?thesis by (intro early_stop [of nodes]) simp_all
    qed
    with True "1.prems" show ?thesis
      by (subst (1 2) setLevelToFriend_unfold) simp
  next
    case False
    let ?new = "allFriends_of nodes component"
    let ?nodes = "nodes @ map (\<lambda>f. \<lparr>friend = f, level = c\<rparr>) ?new"
    have new: "set ?new = {p. hops_from_nearest_seed component p (nat (c - 1))}"
      using "1.prems"(1,3) by (rule layer)
    have a: "assigned ?nodes = within component (c + 1)"
      using "1.prems"(1,3) by (simp add: assigned_append within_step new)
    have "set ?new \<subseteq> set component"
      by (auto simp: set_allFriends_of dest: hop_in_component)
    moreover have "set ?new \<inter> friend ` set nodes = {}"
      by (auto simp: set_allFriends_of)
    ultimately have "mset (map friend nodes) + mset ?new \<subseteq># mset component"
      using "1.prems"(2) distinct_allFriends_of [of nodes component]
      by (intro mset_step) simp_all
    then have b: "mset (map friend ?nodes) \<subseteq># mset component"
      by (simp add: comp_def)
    from False "1.prems" have c: "2 \<le> c + 1" "c + 1 \<le> m + 1" by simp_all
    have "assigned (setLevelToFriend ?nodes component (c + 1) m) = within component (m + 1) \<and>
          mset (map friend (setLevelToFriend ?nodes component (c + 1) m)) \<subseteq># mset component"
      using "1.IH" [OF False refl refl] a b c
      by (simp add: allFriends_of_def)
    with False show ?thesis
      by (subst (1 2) setLevelToFriend_unfold) simp
  qed
qed

lemma getFriendsLevels_within:
  "assigned (getFriendsLevels component m nodes0) = within component (m + 1) \<and>
   mset (map friend (getFriendsLevels component m nodes0)) \<subseteq># mset component"
proof (cases "m \<le> 0 \<or> (\<forall>p \<in> set component. \<not> best p)")
  case True
  then have e: "getFriendsLevels component m nodes0 = []"
    by (auto simp: getFriendsLevels_def filter_empty_conv)
  have "within component (m + 1) = {}"
  proof (cases "m \<le> 0")
    case True
    then show ?thesis by (auto simp: within_def)
  next
    case False
    with True have nb: "\<forall>p \<in> set component. \<not> best p" by simp
    have "\<not> walk component n p" for n p
    proof
      assume "walk component n p"
      then show False
        by (induction rule: walk.induct) (use nb in auto)
    qed
    then show ?thesis by (auto simp: within_def hops_from_nearest_seed_def)
  qed
  with e show ?thesis by (simp add: assigned_def)
next
  case False
  let ?nodes = "map (\<lambda>bestFriend. \<lparr>friend = bestFriend, level = 1\<rparr>) (filter best component)"
  from False have g: "getFriendsLevels component m nodes0 = setLevelToFriend ?nodes component 2 m"
    by (auto simp: getFriendsLevels_def filter_empty_conv Let_def)
  have "hops_from_nearest_seed component p d \<and> int d + 1 < 2 \<longleftrightarrow> d = 0 \<and> p \<in> set component \<and> best p" for p d
    by (auto simp: hops_from_nearest_seed_def walk_0_iff)
  then have "within component 2 = (\<lambda>p. (p, 1)) ` {p \<in> set component. best p}"
    unfolding within_def by auto
  then have a: "assigned ?nodes = within component 2"
    by (simp add: assigned_def image_image)
  have b: "mset (map friend ?nodes) \<subseteq># mset component"
    by (simp add: comp_def)
  from False have c: "(2::int) \<le> 2" "2 \<le> m + 1" by simp_all
  from setLevelToFriend_within [OF a b c] g show ?thesis by simp
qed

lemma find_name_distinct:
  assumes "distinct (map name component)"
  shows "find (\<lambda>x. name x = n) component = Some b \<longleftrightarrow> b \<in> set component \<and> name b = n"
  using assms
proof (induction component)
  case Nil
  then show ?case by simp
next
  case (Cons x xs)
  then show ?case by (auto simp: image_iff)
qed

lemma hop_iff_adjacent:
  assumes "symmetric component" "distinct (map name component)" "a \<in> set component"
  shows "hop component a b \<longleftrightarrow> (a, b) \<in> adjacent component"
proof -
  have "hop component a b \<longleftrightarrow> b \<in> set component \<and> name b \<in> set (friends a)"
    unfolding hop_def by (auto simp: find_name_distinct [OF assms(2)])
  also have "\<dots> \<longleftrightarrow> (a, b) \<in> adjacent component"
    using assms(1,3) unfolding adjacent_def symmetric_def by blast
  finally show ?thesis .
qed

lemma walk_undirected_in_component:
  "walk_undirected component n p \<Longrightarrow> p \<in> set component"
  by (induction rule: walk_undirected.induct) (auto simp: adjacent_def)

lemma walk_undirected_iff_walk:
  assumes "symmetric component" "distinct (map name component)"
  shows "walk_undirected component n p \<longleftrightarrow> walk component n p"
proof
  assume "walk_undirected component n p"
  then show "walk component n p"
  proof (induction rule: walk_undirected.induct)
    case (seed p)
    then show ?case by (rule walk.seed)
  next
    case (step n a b)
    from step.hyps(1) have "a \<in> set component" by (rule walk_undirected_in_component)
    with step.hyps(2) assms have "hop component a b" by (simp add: hop_iff_adjacent)
    with step.IH show ?case by (rule walk.step)
  qed
next
  assume "walk component n p"
  then show "walk_undirected component n p"
  proof (induction rule: walk.induct)
    case (seed p)
    then show ?case by (rule walk_undirected.seed)
  next
    case (step n a b)
    from step.hyps(1) have "a \<in> set component" by (rule walk_in_component)
    with step.hyps(2) assms have "(a, b) \<in> adjacent component" by (simp add: hop_iff_adjacent)
    with step.IH show ?case by (rule walk_undirected.step)
  qed
qed

lemma undirected_distance_iff_hops:
  assumes "symmetric component" "distinct (map name component)"
  shows "undirected_distance component p d \<longleftrightarrow> hops_from_nearest_seed component p d"
  unfolding undirected_distance_def hops_from_nearest_seed_def
  by (simp add: walk_undirected_iff_walk [OF assms])

lemma walk_undirected_0_iff:
  "walk_undirected component 0 p \<longleftrightarrow> p \<in> set component \<and> best p"
  by (auto intro: walk_undirected.seed elim: walk_undirected.cases)

lemma walk_undirected_Suc_iff:
  "walk_undirected component (Suc n) b \<longleftrightarrow>
   (\<exists>a \<in> set component. walk_undirected component n a \<and> (a, b) \<in> adjacent component)"
proof
  assume "walk_undirected component (Suc n) b"
  then obtain a where "walk_undirected component n a" "(a, b) \<in> adjacent component"
    by (cases rule: walk_undirected.cases) auto
  then show "\<exists>a \<in> set component. walk_undirected component n a \<and> (a, b) \<in> adjacent component"
    using walk_undirected_in_component by blast
next
  assume "\<exists>a \<in> set component. walk_undirected component n a \<and> (a, b) \<in> adjacent component"
  then show "walk_undirected component (Suc n) b"
    by (auto intro: walk_undirected.step)
qed

text \<open>
  C3, as amended: for every component and every bound, a person whose nearest best friend
  is \<open>d\<close> hops away along listed names (a hop leads from a person to the person of the
  component that a listed name resolves to), with \<open>d + 1\<close> within the bound, is assigned the
  level \<open>d + 1\<close> and no other level, and is assigned no more often than it occurs in the
  component. In a component with unique names in which friendship is mutual, a person at
  undirected distance \<open>d\<close> from the nearest best friend, with \<open>d + 1\<close> within the bound, is
  assigned exactly once, with the level \<open>d + 1\<close>. Best friends are at distance 0, level 1.
\<close>

theorem levels_are_hops:
  "(hops_from_nearest_seed component p d \<longrightarrow> int d + 1 \<le> maxLevel \<longrightarrow>
      \<lparr>friend = p, level = int d + 1\<rparr> \<in> set (getFriendsLevels component maxLevel nodes0) \<and>
      (\<forall>x \<in> set (getFriendsLevels component maxLevel nodes0).
         friend x = p \<longrightarrow> level x = int d + 1) \<and>
      count (mset (map friend (getFriendsLevels component maxLevel nodes0))) p
        \<le> count (mset component) p) \<and>
   (symmetric component \<longrightarrow> distinct (map name component) \<longrightarrow>
      undirected_distance component p d \<longrightarrow> int d + 1 \<le> maxLevel \<longrightarrow>
      \<lparr>friend = p, level = int d + 1\<rparr> \<in> set (getFriendsLevels component maxLevel nodes0) \<and>
      (\<forall>x \<in> set (getFriendsLevels component maxLevel nodes0).
         friend x = p \<longrightarrow> level x = int d + 1) \<and>
      length (filter (\<lambda>x. friend x = p) (getFriendsLevels component maxLevel nodes0)) = 1)"
proof -
  let ?R = "getFriendsLevels component maxLevel nodes0"
  from getFriendsLevels_within [of component maxLevel nodes0]
  have a: "assigned ?R = within component (maxLevel + 1)"
    and m: "mset (map friend ?R) \<subseteq># mset component"
    by blast+
  have main: "\<lparr>friend = p, level = int d + 1\<rparr> \<in> set ?R \<and>
      (\<forall>x \<in> set ?R. friend x = p \<longrightarrow> level x = int d + 1) \<and>
      count (mset (map friend ?R)) p \<le> count (mset component) p"
    if h: "hops_from_nearest_seed component p d" and b: "int d + 1 \<le> maxLevel"
  proof -
    from h b have "(p, int d + 1) \<in> within component (maxLevel + 1)"
      by (auto simp: within_def)
    with a have "(p, int d + 1) \<in> (\<lambda>x. (friend x, level x)) ` set ?R"
      by (simp add: assigned_def)
    then obtain x where x: "x \<in> set ?R" "friend x = p" "level x = int d + 1"
      by (elim imageE) simp
    have "x = \<lparr>friend = p, level = int d + 1\<rparr>"
      by (rule LevelConstructor.equality) (simp_all add: x)
    with x(1) have 1: "\<lparr>friend = p, level = int d + 1\<rparr> \<in> set ?R" by simp
    have 2: "level y = int d + 1" if "y \<in> set ?R" "friend y = p" for y
    proof -
      from that have "(p, level y) \<in> assigned ?R" by (force simp: assigned_def)
      with a obtain d' where "hops_from_nearest_seed component p d'" "level y = int d' + 1"
        by (auto simp: within_def)
      with hops_unique [OF h, of d'] show ?thesis by simp
    qed
    from m have 3: "count (mset (map friend ?R)) p \<le> count (mset component) p"
      by (rule mset_subset_eq_count)
    from 1 2 3 show ?thesis by blast
  qed
  have once: "length (filter (\<lambda>x. friend x = p) ?R) = 1"
    if s: "symmetric component" and dn: "distinct (map name component)"
      and u: "undirected_distance component p d" and b: "int d + 1 \<le> maxLevel"
  proof -
    from u s dn have h: "hops_from_nearest_seed component p d"
      by (simp add: undirected_distance_iff_hops)
    from dn have "distinct component" by (simp add: distinct_map)
    then have "count (mset component) p \<le> 1"
      by (simp add: distinct_count_atmost_1)
    define fs where "fs = map friend ?R"
    from main [OF h b] \<open>count (mset component) p \<le> 1\<close>
    have le: "count (mset fs) p \<le> 1" unfolding fs_def by linarith
    from main [OF h b] have "p \<in> set fs" unfolding fs_def by force
    then have "p \<in># mset fs" by simp
    then have "1 \<le> count (mset fs) p"
      by (simp only: count_greater_eq_one_iff)
    with le have "count (mset fs) p = 1" by linarith
    moreover have "count (mset fs) p = length (filter (\<lambda>y. y = p) fs)"
      by (induction fs) auto
    moreover have "length (filter (\<lambda>y. y = p) fs) = length (filter (\<lambda>x. friend x = p) ?R)"
      unfolding fs_def by (simp add: length_filter_map comp_def)
    ultimately show ?thesis by simp
  qed
  show ?thesis
    using main once by (simp add: undirected_distance_iff_hops)
qed

theorem levels_are_hops_witness:
  "hops_from_nearest_seed three_people (person_C 2 MALE) 2 \<and>
   symmetric three_people \<and> distinct (map name three_people) \<and>
   undirected_distance three_people (person_C 2 MALE) 2 \<and>
   \<lparr>friend = person_C 2 MALE, level = 3\<rparr> \<in> set (getFriendsLevels three_people 3 []) \<and>
   length (filter (\<lambda>x. friend x = person_C 2 MALE) (getFriendsLevels three_people 3 [])) = 1"
proof -
  have h: "hops_from_nearest_seed three_people (person_C 2 MALE) 2"
    by (simp add: hops_from_nearest_seed_def numeral_2_eq_2 All_less_Suc walk_0_iff walk_Suc_iff
        hop_def three_people_def person_A_def person_B_def person_C_def)
  have u: "undirected_distance three_people (person_C 2 MALE) 2"
    by (simp add: undirected_distance_def numeral_2_eq_2 All_less_Suc walk_undirected_0_iff
        walk_undirected_Suc_iff adjacent_def three_people_def person_A_def person_B_def
        person_C_def)
  have s: "symmetric three_people"
    by (simp add: symmetric_def three_people_def person_A_def person_B_def person_C_def)
  have d: "distinct (map name three_people)"
    by (simp add: three_people_def person_A_def person_B_def person_C_def)
  have b: "int 2 + 1 \<le> 3" by simp
  from levels_are_hops [of three_people "person_C 2 MALE" 2 3 "[]"] h u s d b
  show ?thesis by simp
qed

text \<open>
  C3 as stated fails where friendship is not mutual: in the second component of
  \<open>one_sided\<close> the person who lists the best friend is one undirected step away from it,
  within the bound 2, and is assigned no level, because the best friend lists nobody.
\<close>

theorem levels_are_hops_counterexample:
  "findConnectedComponents one_sided ! 1 = second_component \<and>
   undirected_distance second_component admirer 1 \<and>
   getFriendsLevels second_component 2 [] = [\<lparr>friend = lonely, level = 1\<rparr>] \<and>
   \<lparr>friend = admirer, level = 2\<rparr> \<notin> set (getFriendsLevels second_component 2 [])"
proof -
  have 1: "findConnectedComponents one_sided ! 1 = second_component"
    by (simp add: findConnectedComponents_def findConnectedComponents_loop.simps
        breadthSearch_def one_sided_def second_component_def lonely_def admirer_def Let_def)
  have 2: "undirected_distance second_component admirer 1"
    by (simp add: undirected_distance_def walk_undirected_0_iff walk_undirected_Suc_iff
        adjacent_def second_component_def lonely_def admirer_def)
  have 3: "getFriendsLevels second_component 2 [] = [\<lparr>friend = lonely, level = 1\<rparr>]"
    by (simp add: getFriendsLevels_def setLevelToFriend.simps Set_add_def
        second_component_def lonely_def admirer_def)
  from 1 2 3 show ?thesis
    by (simp add: lonely_def admirer_def)
qed

text \<open>
  C7: \<^verbatim>\<open>getFriendsLevels\<close> returns the empty array whenever the bound is not positive or no
  person of the component is a best friend; it returns, it does not fail.
\<close>

theorem getFriendsLevels_empty:
  "maxLevel \<le> 0 \<or> (\<forall>p \<in> set component. \<not> best p) \<Longrightarrow>
   getFriendsLevels component maxLevel nodes0 = []"
  by (auto simp: getFriendsLevels_def filter_empty_conv)

theorem getFriendsLevels_empty_witness:
  "(0::int) \<le> 0 \<and> getFriendsLevels [person_A 0 MALE, person_B 1 FEMALE] 0 [] = []"
  using getFriendsLevels_empty [of 0 "[person_A 0 MALE, person_B 1 FEMALE]" "[]"]
  by simp

section \<open>The ranking is sorted\<close>

lemma compare_code_units_total: "compare_code_units a b \<le> 0 \<or> compare_code_units b a \<le> 0"
  by (induction a b rule: compare_code_units.induct) auto

lemma compare_code_units_trans:
  "compare_code_units a b \<le> 0 \<Longrightarrow> compare_code_units b d \<le> 0 \<Longrightarrow> compare_code_units a d \<le> 0"
proof (induction a b arbitrary: d rule: compare_code_units.induct)
  case 1
  then show ?case by simp
next
  case (2 y ys)
  then show ?case by (cases d) auto
next
  case (3 x xs)
  then show ?case by simp
next
  case (4 x xs y ys)
  show ?case
  proof (cases d)
    case Nil
    with 4 show ?thesis by (simp split: if_splits)
  next
    case (Cons z zs)
    show ?thesis
    proof (cases "(of_char x :: nat) < of_char y")
      case True
      from "4.prems"(2) Cons have "(of_char y :: nat) \<le> of_char z"
        by (simp split: if_splits)
      with True have "(of_char x :: nat) < of_char z" by simp
      with Cons show ?thesis by simp
    next
      case False
      with "4.prems"(1) have xy: "(of_char x :: nat) = of_char y" "compare_code_units xs ys \<le> 0"
        by (simp_all split: if_splits)
      show ?thesis
      proof (cases "(of_char y :: nat) < of_char z")
        case True
        with xy Cons show ?thesis by simp
      next
        case F2: False
        with "4.prems"(2) Cons have yz: "(of_char y :: nat) = of_char z" "compare_code_units ys zs \<le> 0"
          by (simp_all split: if_splits)
        from "4.IH" [OF False _ xy(2) yz(2)] xy(1) have "compare_code_units xs zs \<le> 0"
          by simp
        with xy yz Cons show ?thesis by simp
      qed
    qed
  qed
qed

lemma consistent_compare_code_units: "consistent compare_code_units"
  unfolding consistent_def using compare_code_units_total compare_code_units_trans by blast

lemma set_insort_cmp: "set (insort_cmp c x xs) = insert x (set xs)"
  by (induction xs) auto

lemma set_Array_sort: "set (Array_sort c xs) = set xs"
  by (induction xs) (auto simp: Array_sort_def set_insort_cmp)

lemma sorted_insort_cmp:
  assumes tot: "\<And>a b. c a b \<le> 0 \<or> c b a \<le> 0"
    and tr: "\<And>a b d. c a b \<le> 0 \<Longrightarrow> c b d \<le> 0 \<Longrightarrow> c a d \<le> 0"
  shows "sorted_wrt (\<lambda>a b. c a b \<le> 0) xs \<Longrightarrow> sorted_wrt (\<lambda>a b. c a b \<le> 0) (insort_cmp c x xs)"
proof (induction xs)
  case Nil
  then show ?case by simp
next
  case (Cons y ys)
  show ?case
  proof (cases "c x y \<le> 0")
    case True
    with Cons.prems tr show ?thesis by auto
  next
    case False
    with tot [of x y] have "c y x \<le> 0" by simp
    with False Cons show ?thesis by (auto simp: set_insort_cmp)
  qed
qed

lemma sorted_Array_sort:
  assumes tot: "\<And>a b. c a b \<le> 0 \<or> c b a \<le> 0"
    and tr: "\<And>a b d. c a b \<le> 0 \<Longrightarrow> c b d \<le> 0 \<Longrightarrow> c a d \<le> 0"
  shows "sorted_wrt (\<lambda>a b. c a b \<le> 0) (Array_sort c xs)"
proof (induction xs)
  case Nil
  then show ?case by (simp add: Array_sort_def)
next
  case (Cons x xs)
  then show ?case
    using sorted_insort_cmp [of c "Array_sort c xs" x, OF tot tr]
    by (simp add: Array_sort_def)
qed

lemma fst_pushLevel:
  "map fst (pushLevel obj x) = (if level x \<in> fst ` set obj then map fst obj else map fst obj @ [level x])"
  by (induction obj x rule: pushLevel.induct) auto

lemma set_pushLevel:
  "(k, b) \<in> set (pushLevel obj x) \<Longrightarrow> (k, b) \<in> set obj \<or> (k = level x \<and> (\<exists>b'. b = b' @ [x] \<and> (b' = [] \<or> (k, b') \<in> set obj)))"
  by (induction obj x rule: pushLevel.induct) (auto split: if_splits)

lemma buckets_ok_pushLevel:
  assumes "buckets_ok obj"
  shows "buckets_ok (pushLevel obj x)"
proof -
  from assms have d: "distinct (map fst obj)"
    and l: "\<And>k b y. (k, b) \<in> set obj \<Longrightarrow> y \<in> set b \<Longrightarrow> level y = k"
    unfolding buckets_ok_def by blast+
  have "distinct (map fst (pushLevel obj x))"
    using d by (simp add: fst_pushLevel)
  moreover have "level y = k" if "(k, b) \<in> set (pushLevel obj x)" "y \<in> set b" for k b y
    using set_pushLevel [OF that(1)] that(2) l by auto
  ultimately show ?thesis
    unfolding buckets_ok_def by blast
qed

lemma buckets_ok_fold_pushLevel:
  "buckets_ok obj \<Longrightarrow> buckets_ok (fold (\<lambda>friend levels'. pushLevel levels' friend) xs obj)"
  by (induction xs arbitrary: obj) (auto simp: buckets_ok_pushLevel)

lemma buckets_ok_componentsWithLevels_aux:
  "buckets_ok obj \<Longrightarrow>
   buckets_ok (fold (\<lambda>currentComponent levels.
             fold (\<lambda>friend levels'. pushLevel levels' friend)
                  (getFriendsLevels currentComponent maxLevel []) levels) cs obj)"
  by (induction cs arbitrary: obj) (auto simp: buckets_ok_fold_pushLevel)

lemma buckets_ok_componentsWithLevels: "buckets_ok (componentsWithLevels cs maxLevel)"
  unfolding componentsWithLevels_def
  by (rule buckets_ok_componentsWithLevels_aux) (simp add: buckets_ok_def)

lemma sorted_concat_buckets:
  assumes tot: "\<And>a b. c a b \<le> 0 \<or> c b a \<le> 0"
    and tr: "\<And>a b d. c a b \<le> 0 \<Longrightarrow> c b d \<le> 0 \<Longrightarrow> c a d \<le> 0"
  shows "sorted_wrt (<) (map fst ps) \<Longrightarrow> \<forall>(k, b) \<in> set ps. \<forall>x \<in> set b. level x = k \<Longrightarrow>
    sorted_wrt (by_level_then_name c)
      (concat (map (Array_sort (\<lambda>x y. c (name (friend x)) (name (friend y)))) (map snd ps)))"
proof (induction ps)
  case Nil
  then show ?case by simp
next
  case (Cons p ps)
  obtain k b where p: "p = (k, b)" by (cases p)
  let ?c = "\<lambda>x y. c (name (friend x)) (name (friend y))"
  have "sorted_wrt (\<lambda>a b. ?c a b \<le> 0) (Array_sort ?c b)"
    by (rule sorted_Array_sort) (use tot tr in blast)+
  moreover have "\<forall>x \<in> set (Array_sort ?c b). level x = k"
    using Cons.prems(2) p by (simp add: set_Array_sort)
  ultimately have 1: "sorted_wrt (by_level_then_name c) (Array_sort ?c b)"
    by (elim sorted_wrt_mono_rel [rotated]) (simp add: by_level_then_name_def)
  have 2: "sorted_wrt (by_level_then_name c) (concat (map (Array_sort ?c) (map snd ps)))"
    using Cons by simp
  from Cons.prems(1) p have less: "\<forall>q \<in> set ps. k < fst q"
    by simp
  have 3: "by_level_then_name c x y"
    if "x \<in> set (Array_sort ?c b)" "y \<in> set (concat (map (Array_sort ?c) (map snd ps)))" for x y
  proof -
    from that(2) obtain q where q: "q \<in> set ps" "y \<in> set (snd q)"
      by (auto simp: set_Array_sort)
    with less have "k < fst q" by blast
    moreover from q Cons.prems(2) have "level y = fst q" by fastforce
    moreover from that(1) Cons.prems(2) p have "level x = k" by (simp add: set_Array_sort)
    ultimately show ?thesis by (simp add: by_level_then_name_def)
  qed
  have "\<forall>x \<in> set (Array_sort ?c b).
          \<forall>y \<in> set (concat (map (Array_sort ?c) (map snd ps))). by_level_then_name c x y"
    using 3 by blast
  with 1 2 show ?case
    unfolding p by (simp add: sorted_wrt_append)
qed

text \<open>
  C4: for every collection and bound, and every comparator that compares any two names
  transitively, the sequence of \<^verbatim>\<open>getComponentsOfFriendsWithLevel\<close> is the projection of
  a sequence of leveled persons that is ordered by level over all components, and by name
  within a level.
\<close>

theorem ranking_sorted:
  assumes "consistent localeCompare"
  shows "getComponentsOfFriendsWithLevel localeCompare graph maxLevel =
           map friend (rankedLevels localeCompare graph maxLevel) \<and>
         sorted_wrt (by_level_then_name localeCompare) (rankedLevels localeCompare graph maxLevel)"
proof -
  let ?obj = "componentsWithLevels (findConnectedComponents graph) maxLevel"
  have ok: "buckets_ok ?obj" by (rule buckets_ok_componentsWithLevels)
  have "mset (map fst (sort_key fst ?obj)) = mset (map fst ?obj)"
    by simp
  then have "distinct (map fst (sort_key fst ?obj)) = distinct (map fst ?obj)"
    by (rule mset_eq_imp_distinct_iff)
  then have "distinct (map fst (sort_key fst ?obj))" "sorted (map fst (sort_key fst ?obj))"
    using ok by (simp_all add: buckets_ok_def)
  then have s: "sorted_wrt (<) (map fst (sort_key fst ?obj))"
    by (simp add: strict_sorted_iff)
  have b: "\<forall>(k, b) \<in> set (sort_key fst ?obj). \<forall>x \<in> set b. level x = k"
    using ok by (simp add: buckets_ok_def)
  from assms have tot: "\<And>a b. localeCompare a b \<le> 0 \<or> localeCompare b a \<le> 0"
    and tr: "\<And>a b d. localeCompare a b \<le> 0 \<Longrightarrow> localeCompare b d \<le> 0 \<Longrightarrow> localeCompare a d \<le> 0"
    unfolding consistent_def by blast+
  from sorted_concat_buckets [of localeCompare, OF tot tr s b]
  show ?thesis
    by (simp add: getComponentsOfFriendsWithLevel_def rankedLevels_def Object_values_def)
qed

theorem ranking_sorted_witness:
  "consistent compare_code_units \<and>
   map (\<lambda>x. (level x, name (friend x))) (rankedLevels compare_code_units two_circles 5) =
     [(1, ''Xu''), (1, ''Yan''), (2, ''Bo''), (2, ''Cy''), (2, ''Dan'')] \<and>
   sorted_wrt (by_level_then_name compare_code_units) (rankedLevels compare_code_units two_circles 5)"
proof -
  have "map (\<lambda>x. (level x, name (friend x))) (rankedLevels compare_code_units two_circles 5) =
     [(1, ''Xu''), (1, ''Yan''), (2, ''Bo''), (2, ''Cy''), (2, ''Dan'')]"
    by (simp add: rankedLevels_def componentsWithLevels_def getFriendsLevels_def
        Object_values_def Array_sort_def Set_add_def findConnectedComponents_def findConnectedComponents_loop.simps
      setLevelToFriend.simps
        breadthSearch_def two_circles_def)
  with ranking_sorted [of compare_code_units two_circles 5] consistent_compare_code_units
  show ?thesis by simp
qed

section \<open>Filters and iterators\<close>

text \<open>
  C5: for any persons collection, both constructors fail with a TypeError exactly when the
  second argument is not a Filter instance; the failure is the whole result, no iterator
  object comes with it. \<open>Iterator_next\<close> and \<open>Iterator_done\<close> have no failing path: the only
  array read of \<^verbatim>\<open>next\<close> is guarded by the index test.
\<close>

theorem constructor_TypeError:
  "(Iterator localeCompare persons arg = Inl TypeError \<longleftrightarrow> arg = NotAFilter) \<and>
   (LimitedIterator localeCompare persons arg maxLevel = Inl TypeError \<longleftrightarrow> arg = NotAFilter) \<and>
   Iterator localeCompare persons NotAFilter = Inl TypeError \<and>
   LimitedIterator localeCompare persons NotAFilter maxLevel = Inl TypeError"
  by (cases arg) (simp_all add: Iterator_def LimitedIterator_def)

lemma run_exhausted:
  "length (it_friends this) \<le> nextIndex this \<Longrightarrow>
   run cs this = (map (\<lambda>c. case c of Next \<Rightarrow> Returned None | Done \<Rightarrow> Answered True) cs, this)"
proof (induction cs)
  case Nil
  then show ?case by simp
next
  case (Cons c cs)
  then show ?case
    by (cases c) (simp_all add: Iterator_next_def Iterator_done_def)
qed

text \<open>
  C6: in every state of an iterator, \<^verbatim>\<open>done()\<close> answers true exactly when \<^verbatim>\<open>next()\<close> would
  return \<^verbatim>\<open>null\<close>; \<^verbatim>\<open>done()\<close> leaves the object as it was; and once \<^verbatim>\<open>done()\<close> is true,
  any sequence of calls returns \<^verbatim>\<open>null\<close> from every \<^verbatim>\<open>next()\<close> and true from every
  \<^verbatim>\<open>done()\<close>, and leaves the object unchanged.
\<close>

theorem done_iff_next_sentinel:
  "(fst (Iterator_done this) \<longleftrightarrow> fst (Iterator_next this) = None) \<and>
   snd (Iterator_done this) = this \<and>
   (fst (Iterator_done this) \<longrightarrow>
      run cs this =
        (map (\<lambda>c. case c of Next \<Rightarrow> Returned None | Done \<Rightarrow> Answered True) cs, this))"
  using run_exhausted [of this cs]
  by (simp add: Iterator_next_def Iterator_done_def)

theorem done_iff_next_sentinel_witness:
  "fst (Iterator_done exhausted) \<and>
   run [Next, Done, Next] exhausted = ([Returned None, Answered True, Returned None], exhausted)"
  using done_iff_next_sentinel [of exhausted "[Next, Done, Next]"]
  by (simp add: exhausted_def Iterator_done_def)

text \<open>
  C9: \<^verbatim>\<open>filterArray\<close> of a filter with a predicate returns the elements that satisfy it,
  in their order (HOL's \<open>filter\<close>); the result of any filter is a subsequence of the
  argument; the base \<^verbatim>\<open>Filter\<close> returns the argument unchanged; \<^verbatim>\<open>MaleFilter\<close> and
  \<^verbatim>\<open>FemaleFilter\<close> keep the persons of the one gender.
\<close>

theorem filterArray_subsequence:
  "filterArray \<lparr>filterFunction = Some P\<rparr> xs = filter P xs \<and>
   subseq (filterArray f xs) xs \<and>
   filterArray Filter xs = xs \<and>
   filterArray MaleFilter xs = filter (\<lambda>p. gender p = ''male'') xs \<and>
   filterArray FemaleFilter xs = filter (\<lambda>p. gender p = ''female'') xs"
  by (simp add: filterArray_def Filter_def MaleFilter_def FemaleFilter_def MALE_def FEMALE_def
      split: option.split)

text \<open>
  C10: \<^verbatim>\<open>LimitedIterator\<close> with the number of persons as its bound builds the same object
  as \<^verbatim>\<open>Iterator\<close>, for any second argument, so every sequence of calls answers the same.
\<close>

theorem LimitedIterator_length_eq_Iterator:
  "LimitedIterator localeCompare persons arg (int (length persons)) =
   Iterator localeCompare persons arg"
  by (simp add: LimitedIterator_def Iterator_def)

text \<open>
  C8: for the three people A, B, C of the example, the levels are 1, 2, 3, the unbounded
  iterator with the base filter holds the sequence A, B, C, and its \<^verbatim>\<open>next()\<close> returns
  A, B, C and then \<^verbatim>\<open>null\<close>.
\<close>

theorem example_three_people:
  "rankedLevels localeCompare [person_A rA gA, person_B rB gB, person_C rC gC] 3 =
     [\<lparr>friend = person_A rA gA, level = 1\<rparr>, \<lparr>friend = person_B rB gB, level = 2\<rparr>,
      \<lparr>friend = person_C rC gC, level = 3\<rparr>] \<and>
   Iterator localeCompare [person_A rA gA, person_B rB gB, person_C rC gC]
       (FilterInstance Filter) =
     Inr \<lparr>nextIndex = 0, it_friends = [person_A rA gA, person_B rB gB, person_C rC gC]\<rparr> \<and>
   fst (run [Next, Next, Next, Next, Done]
          \<lparr>nextIndex = 0, it_friends = [person_A rA gA, person_B rB gB, person_C rC gC]\<rparr>) =
     [Returned (Some (person_A rA gA)), Returned (Some (person_B rB gB)),
      Returned (Some (person_C rC gC)), Returned None, Answered True]"
  by (simp add: Iterator_def filterArray_def Filter_def getComponentsOfFriendsWithLevel_def
      rankedLevels_def componentsWithLevels_def getFriendsLevels_def Object_values_def
      Array_sort_def Set_add_def findConnectedComponents_def findConnectedComponents_loop.simps
      setLevelToFriend.simps breadthSearch_def
      Iterator_next_def Iterator_done_def person_A_def person_B_def person_C_def)

end
